theory Spec2Isabelle
  imports Main
begin

section \<open>The on-disk segment group of the LSM store (package lsmkv)\<close>

text \<open>
  A shallow embedding of \<^verbatim>\<open>SegmentGroup\<close> and of the operations on it: the reader
  path (\<^verbatim>\<open>get\<close>, \<^verbatim>\<open>getErrDeleted\<close>, \<^verbatim>\<open>getCollection\<close>), the injected predicate
  \<^verbatim>\<open>makeExistsOnLower\<close>, \<^verbatim>\<open>add\<close>, \<^verbatim>\<open>addInitializedSegment\<close>, \<^verbatim>\<open>shutdown\<close>, the
  maintenance tick \<^verbatim>\<open>compactOrCleanup\<close> and the directory scan of
  \<^verbatim>\<open>newSegmentGroup\<close>.

  Locks, logging and metrics do not change any returned value and are left out; the
  model is the sequential behaviour of each operation while it holds its lock.
\<close>

subsection \<open>Data\<close>

text \<open>
  A Go \<^verbatim>\<open>[]byte\<close> is a list of bytes (\<^typ>\<open>char\<close> is the 8-bit byte); where the code
  tests a slice against \<^verbatim>\<open>nil\<close> the slice is a \<^typ>\<open>string option\<close> and \<^verbatim>\<open>nil\<close> is
  \<^term>\<open>None\<close>.
\<close>

type_synonym bytes = "char list"

text \<open>
  Errors. \<^verbatim>\<open>lsmkv.NotFound\<close> and \<^verbatim>\<open>lsmkv.Deleted\<close> are the two sentinels; any other
  error is a message, and \<^verbatim>\<open>fmt.Errorf("...: %w", err)\<close> wraps an error;
  \<^verbatim>\<open>fs.ErrNotExist\<close> is what \<^verbatim>\<open>os.Stat\<close> answers for a missing file.
  \<^verbatim>\<open>errors.Is\<close> follows the chain of wrapped errors.
\<close>

datatype error = NotFound | Deleted | ErrNotExist | ErrorString string | Wrap string error

fun errors_Is :: "error \<Rightarrow> error \<Rightarrow> bool" where
  "errors_Is (Wrap m e) t = (Wrap m e = t \<or> errors_Is e t)"
| "errors_Is e t = (e = t)"

text \<open>A Go call either returns or panics.\<close>

datatype panic = UnsupportedError error | NilPointerDereference | IndexOutOfRange

datatype 'a outcome = Return 'a | Panic panic

text \<open>
  The element type of a collection read, \<^verbatim>\<open>value\<close>, is declared elsewhere in the
  package: the bytes and a tombstone flag.
\<close>

type_synonym val = "bytes \<times> bool"

text \<open>
  The segment is a collaborator of the group: its methods are not part of these
  sources, so a segment handle carries what its methods answer. \<^verbatim>\<open>seg_get\<close>
  and \<^verbatim>\<open>seg_getCollection\<close> are the pairs \<^verbatim>\<open>(v, err)\<close> the Go methods return,
  \<^verbatim>\<open>seg_close\<close> and \<^verbatim>\<open>seg_dropImmediately\<close> the error (or \<^verbatim>\<open>nil\<close>) of these calls.
  \<^verbatim>\<open>seg_existsOnLower\<close> is the closure injected at construction: a closure made by
  \<^verbatim>\<open>makeExistsOnLower\<close> captures the group pointer and \<^verbatim>\<open>nextSegmentIndex\<close>, so it
  is represented by that index and reads the group as it is when it is called.
\<close>

record segment =
  seg_path :: string
  seg_get :: "bytes \<Rightarrow> bytes option \<times> error option"
  seg_getCollection :: "bytes \<Rightarrow> val list \<times> error option"
  seg_close :: "error option"
  seg_dropImmediately :: "error option"
  seg_existsOnLower :: int

text \<open>
  The group. \<^verbatim>\<open>segments\<close> is a \<^verbatim>\<open>[]*segment\<close>: a slot can hold \<^verbatim>\<open>nil\<close>
  (\<^term>\<open>None\<close>). The \<^verbatim>\<open>nil\<close> slice is the empty list: the code only takes its length,
  ranges over it and appends to it. Times are instants on one clock, in nanoseconds.
\<close>

record SegmentGroup =
  segments :: "segment option list"
  dir :: string
  mmapContents :: bool
  useBloomFilter :: bool
  calcCountNetAdditions :: bool
  lastCleanupCall :: int
  lastCompactionCall :: int

subsection \<open>Reader path, Replace strategy\<close>

text \<open>
  \<^verbatim>\<open>for i := topMostSegment; i >= 0; i-- { v, err := sg.segments[i].get(key) ... }\<close>
  Indexing past the end of the slice and calling \<^verbatim>\<open>get\<close> on a \<^verbatim>\<open>nil\<close> segment
  panic.
\<close>

function getWithUpperSegmentBoundary ::
  "SegmentGroup \<Rightarrow> bytes \<Rightarrow> int \<Rightarrow> (bytes option \<times> error option) outcome" where
  "getWithUpperSegmentBoundary sg key i =
     (if i \<ge> 0 then
        (if nat i < length (segments sg) then
           (case segments sg ! nat i of
              None \<Rightarrow> Panic NilPointerDereference
            | Some seg \<Rightarrow>
                (case seg_get seg key of
                   (v, Some err) \<Rightarrow>
                     if errors_Is err NotFound then getWithUpperSegmentBoundary sg key (i - 1)
                     else if errors_Is err Deleted then Return (None, None)
                     else Panic (UnsupportedError err)
                 | (v, None) \<Rightarrow> Return (v, None)))
         else Panic IndexOutOfRange)
      else Return (None, None))"
  by pat_completeness auto
termination
  by (relation "measure (\<lambda>(sg, key, i). nat (i + 1))") auto

declare getWithUpperSegmentBoundary.simps [simp del]

definition get :: "SegmentGroup \<Rightarrow> bytes \<Rightarrow> (bytes option \<times> error option) outcome" where
  "get sg key = getWithUpperSegmentBoundary sg key (int (length (segments sg)) - 1)"

function getWithUpperSegmentBoundaryErrDeleted ::
  "SegmentGroup \<Rightarrow> bytes \<Rightarrow> int \<Rightarrow> (bytes option \<times> error option) outcome" where
  "getWithUpperSegmentBoundaryErrDeleted sg key i =
     (if i \<ge> 0 then
        (if nat i < length (segments sg) then
           (case segments sg ! nat i of
              None \<Rightarrow> Panic NilPointerDereference
            | Some seg \<Rightarrow>
                (case seg_get seg key of
                   (v, Some err) \<Rightarrow>
                     if errors_Is err NotFound
                     then getWithUpperSegmentBoundaryErrDeleted sg key (i - 1)
                     else if errors_Is err Deleted then Return (None, Some err)
                     else Panic (UnsupportedError err)
                 | (v, None) \<Rightarrow> Return (v, None)))
         else Panic IndexOutOfRange)
      else Return (None, Some NotFound))"
  by pat_completeness auto
termination
  by (relation "measure (\<lambda>(sg, key, i). nat (i + 1))") auto

declare getWithUpperSegmentBoundaryErrDeleted.simps [simp del]

definition getErrDeleted ::
  "SegmentGroup \<Rightarrow> bytes \<Rightarrow> (bytes option \<times> error option) outcome" where
  "getErrDeleted sg key =
     getWithUpperSegmentBoundaryErrDeleted sg key (int (length (segments sg)) - 1)"

text \<open>
  \<^verbatim>\<open>makeExistsOnLower(nextSegmentIndex)\<close> returns a closure over the group; here the
  closure is applied to the group it reads and to the key.
\<close>

definition makeExistsOnLower ::
  "SegmentGroup \<Rightarrow> int \<Rightarrow> bytes \<Rightarrow> (bool \<times> error option) outcome" where
  "makeExistsOnLower sg nextSegmentIndex key =
     (if nextSegmentIndex = 0 then Return (False, None)
      else
        (case getWithUpperSegmentBoundary sg key (nextSegmentIndex - 1) of
           Panic p \<Rightarrow> Panic p
         | Return (v, Some err) \<Rightarrow>
             Return (False,
               Some (Wrap ''check exists on segments lower than nextSegmentIndex'' err))
         | Return (v, None) \<Rightarrow> Return (v \<noteq> None, None)))"

subsection \<open>Reader path, collection strategies\<close>

text \<open>
  \<^verbatim>\<open>for _, segment := range sg.segments { v, err := segment.getCollection(key) ... }\<close>
  with the accumulator \<^verbatim>\<open>out\<close>.
\<close>

fun getCollection_loop ::
  "segment option list \<Rightarrow> bytes \<Rightarrow> val list \<Rightarrow> (val list \<times> error option) outcome" where
  "getCollection_loop [] key out = Return (out, None)"
| "getCollection_loop (s # rest) key out =
     (case s of
        None \<Rightarrow> Panic NilPointerDereference
      | Some seg \<Rightarrow>
          (case seg_getCollection seg key of
             (v, Some err) \<Rightarrow>
               if errors_Is err NotFound then getCollection_loop rest key out
               else Return ([], Some err)
           | (v, None) \<Rightarrow>
               getCollection_loop rest key (if length out = 0 then v else out @ v)))"

definition getCollection ::
  "SegmentGroup \<Rightarrow> bytes \<Rightarrow> (val list \<times> error option) outcome" where
  "getCollection sg key = getCollection_loop (segments sg) key []"

subsection \<open>Appending a segment\<close>

text \<open>
  \<^verbatim>\<open>newSegment\<close> is not part of these sources and is a parameter of the model. Its
  arguments, in the order of the Go call without logger and metrics: the path, the
  index captured by the injected \<^verbatim>\<open>makeExistsOnLower(i)\<close>, \<^verbatim>\<open>mmapContents\<close>,
  \<^verbatim>\<open>useBloomFilter\<close>, \<^verbatim>\<open>calcCountNetAdditions\<close> and \<^verbatim>\<open>overwriteDerived\<close>.
\<close>

type_synonym newSegment_fn =
  "string \<Rightarrow> int \<Rightarrow> bool \<Rightarrow> bool \<Rightarrow> bool \<Rightarrow> bool \<Rightarrow> error + segment"

definition add :: "newSegment_fn \<Rightarrow> SegmentGroup \<Rightarrow> string \<Rightarrow> error option \<times> SegmentGroup" where
  "add newSegment sg path =
     (let newSegmentIndex = int (length (segments sg)) in
      case newSegment path newSegmentIndex (mmapContents sg) (useBloomFilter sg)
             (calcCountNetAdditions sg) True of
        Inl err \<Rightarrow> (Some (Wrap (''init segment '' @ path) err), sg)
      | Inr segment \<Rightarrow> (None, sg\<lparr>segments := segments sg @ [Some segment]\<rparr>))"

text \<open>The argument is a \<^verbatim>\<open>*segment\<close>, appended as it is.\<close>

definition addInitializedSegment ::
  "SegmentGroup \<Rightarrow> segment option \<Rightarrow> error option \<times> SegmentGroup" where
  "addInitializedSegment sg segment = (None, sg\<lparr>segments := segments sg @ [segment]\<rparr>)"

subsection \<open>Shutdown\<close>

text \<open>
  \<^verbatim>\<open>for i, seg := range sg.segments { if err := seg.close(); err != nil { return err };
  sg.segments[i] = nil }\<close>, then \<^verbatim>\<open>sg.segments = nil\<close>. The third component
  records, in order, the segments whose \<^verbatim>\<open>close\<close> returned \<^verbatim>\<open>nil\<close>.
\<close>

function shutdown_loop ::
  "segment option list \<Rightarrow> nat \<Rightarrow> segment list
   \<Rightarrow> (error option \<times> segment option list \<times> segment list) outcome" where
  "shutdown_loop segs i closed =
     (if i < length segs then
        (case segs ! i of
           None \<Rightarrow> Panic NilPointerDereference
         | Some seg \<Rightarrow>
             (case seg_close seg of
                Some err \<Rightarrow> Return (Some err, segs, closed)
              | None \<Rightarrow> shutdown_loop (segs[i := None]) (Suc i) (closed @ [seg])))
      else Return (None, [], closed))"
  by pat_completeness auto
termination
  by (relation "measure (\<lambda>(segs, i, closed). length segs - i)") auto

declare shutdown_loop.simps [simp del]

text \<open>
  The parameters are what the collaborators answer: \<^verbatim>\<open>compactionCallbackCtrl.Unregister(ctx)\<close>,
  \<^verbatim>\<open>ctx.Err()\<close> and \<^verbatim>\<open>segmentCleaner.close()\<close>.
\<close>

definition shutdown ::
  "error option \<Rightarrow> error option \<Rightarrow> error option \<Rightarrow> SegmentGroup
   \<Rightarrow> (error option \<times> SegmentGroup \<times> segment list) outcome" where
  "shutdown unregister ctx_err cleaner_close sg =
     (case unregister of
        Some e \<Rightarrow>
          Return
            (Some (case ctx_err of
                     Some c \<Rightarrow> Wrap ''long-running compaction in progress'' c
                   | None \<Rightarrow> ErrorString ''long-running compaction in progress: %!w(<nil>)''),
             sg, [])
      | None \<Rightarrow>
          (case cleaner_close of
             Some e \<Rightarrow> Return (Some e, sg, [])
           | None \<Rightarrow>
               (case shutdown_loop (segments sg) 0 [] of
                  Panic p \<Rightarrow> Panic p
                | Return (err, segs, closed) \<Rightarrow> Return (err, sg\<lparr>segments := segs\<rparr>, closed))))"

subsection \<open>The maintenance tick\<close>








subsection \<open>Recovery: library functions on names and the disk\<close>



















subsection \<open>Recovery: the two passes of newSegmentGroup\<close>










subsection \<open>The reader path in the words of the specification\<close>

text \<open>
  The walk of the Replace strategy, on the segments listed newest first: a value is
  yielded and the walk stops, \<^verbatim>\<open>NotFound\<close> continues with the next older segment,
  \<^verbatim>\<open>Deleted\<close> yields absent and stops, any other error is fatal. An exhausted
  sequence yields absent.
\<close>

fun replace_walk :: "segment list \<Rightarrow> bytes \<Rightarrow> (bytes option \<times> error option) outcome" where
  "replace_walk [] key = Return (None, None)"
| "replace_walk (s # older) key =
     (case seg_get s key of
        (v, None) \<Rightarrow> Return (v, None)
      | (v, Some err) \<Rightarrow>
          if errors_Is err NotFound then replace_walk older key
          else if errors_Is err Deleted then Return (None, None)
          else Panic (UnsupportedError err))"

text \<open>The variant that reports \<^verbatim>\<open>Deleted\<close> and \<^verbatim>\<open>NotFound\<close> as errors.\<close>

fun replace_walk_err_deleted ::
  "segment list \<Rightarrow> bytes \<Rightarrow> (bytes option \<times> error option) outcome" where
  "replace_walk_err_deleted [] key = Return (None, Some NotFound)"
| "replace_walk_err_deleted (s # older) key =
     (case seg_get s key of
        (v, None) \<Rightarrow> Return (v, None)
      | (v, Some err) \<Rightarrow>
          if errors_Is err NotFound then replace_walk_err_deleted older key
          else if errors_Is err Deleted then Return (None, Some err)
          else Panic (UnsupportedError err))"

text \<open>A segment that answers \<^verbatim>\<open>NotFound\<close> holds neither a value nor a tombstone for the key.\<close>

definition answers_NotFound :: "segment \<Rightarrow> bytes \<Rightarrow> bool" where
  "answers_NotFound s key =
     (case snd (seg_get s key) of None \<Rightarrow> False | Some err \<Rightarrow> errors_Is err NotFound)"

text \<open>What the newest segment holding the key makes of the lookup.\<close>

definition settle :: "segment \<Rightarrow> bytes \<Rightarrow> (bytes option \<times> error option) outcome" where
  "settle s key =
     (case seg_get s key of
        (v, None) \<Rightarrow> Return (v, None)
      | (v, Some err) \<Rightarrow>
          if errors_Is err Deleted then Return (None, None) else Panic (UnsupportedError err))"

text \<open>The same for the predicate \<^verbatim>\<open>exists_on_lower\<close>: a value that is not \<^verbatim>\<open>nil\<close>.\<close>

definition settle_exists :: "segment \<Rightarrow> bytes \<Rightarrow> (bool \<times> error option) outcome" where
  "settle_exists s key =
     (case seg_get s key of
        (v, None) \<Rightarrow> Return (v \<noteq> None, None)
      | (v, Some err) \<Rightarrow>
          if errors_Is err Deleted then Return (False, None) else Panic (UnsupportedError err))"

text \<open>Collection reads: a segment fails the read with an error other than \<^verbatim>\<open>NotFound\<close>,
  and holds the key when it answers without error.\<close>

definition collection_fails :: "segment \<Rightarrow> bytes \<Rightarrow> bool" where
  "collection_fails s key =
     (case snd (seg_getCollection s key) of
        None \<Rightarrow> False
      | Some err \<Rightarrow> \<not> errors_Is err NotFound)"

definition collection_holds :: "segment \<Rightarrow> bytes \<Rightarrow> bool" where
  "collection_holds s key = (snd (seg_getCollection s key) = None)"

subsection \<open>Example segments and groups\<close>

definition example_segment ::
  "string \<Rightarrow> (bytes \<Rightarrow> bytes option \<times> error option) \<Rightarrow> segment" where
  "example_segment p g =
     \<lparr>seg_path = p, seg_get = g, seg_getCollection = (\<lambda>k. ([], Some NotFound)),
      seg_close = None, seg_dropImmediately = None, seg_existsOnLower = 0\<rparr>"

definition collection_segment ::
  "string \<Rightarrow> (bytes \<Rightarrow> val list \<times> error option) \<Rightarrow> segment" where
  "collection_segment p g =
     \<lparr>seg_path = p, seg_get = (\<lambda>k. (None, Some NotFound)), seg_getCollection = g,
      seg_close = None, seg_dropImmediately = None, seg_existsOnLower = 0\<rparr>"

definition holding :: "bytes \<Rightarrow> bytes \<Rightarrow> bytes \<Rightarrow> bytes option \<times> error option" where
  "holding k v = (\<lambda>key. if key = k then (Some v, None) else (None, Some NotFound))"

definition tombstone_for :: "bytes \<Rightarrow> bytes \<Rightarrow> bytes option \<times> error option" where
  "tombstone_for k = (\<lambda>key. if key = k then (None, Some Deleted) else (None, Some NotFound))"

definition holding_collection :: "bytes \<Rightarrow> val list \<Rightarrow> bytes \<Rightarrow> val list \<times> error option" where
  "holding_collection k vs = (\<lambda>key. if key = k then (vs, None) else ([], Some NotFound))"

definition failing_collection :: "bytes \<Rightarrow> error \<Rightarrow> bytes \<Rightarrow> val list \<times> error option" where
  "failing_collection k e = (\<lambda>key. if key = k then ([], Some e) else ([], Some NotFound))"

definition example_group :: "segment option list \<Rightarrow> SegmentGroup" where
  "example_group slots =
     \<lparr>segments = slots, dir = ''data'', mmapContents = False, useBloomFilter = False,
      calcCountNetAdditions = False, lastCleanupCall = 0, lastCompactionCall = 0\<rparr>"

definition seg_v1 :: segment where
  "seg_v1 = example_segment ''data/segment-01.db'' (holding ''k'' ''v1'')"

definition seg_tomb :: segment where
  "seg_tomb = example_segment ''data/segment-02.db'' (tombstone_for ''k'')"

definition seg_other :: segment where
  "seg_other = example_segment ''data/segment-03.db'' (holding ''j'' ''w'')"

definition seg_broken :: segment where
  "seg_broken =
     example_segment ''data/segment-04.db'' (\<lambda>key. (None, Some (ErrorString ''read failed'')))"

definition coll_a :: segment where
  "coll_a = collection_segment ''data/segment-01.db''
              (holding_collection ''k'' [(''a1'', False), (''a2'', False)])"

definition coll_b :: segment where
  "coll_b = collection_segment ''data/segment-02.db'' (holding_collection ''j'' [(''x'', False)])"

definition coll_c :: segment where
  "coll_c = collection_segment ''data/segment-03.db'' (holding_collection ''k'' [(''c1'', True)])"

definition coll_bad :: segment where
  "coll_bad = collection_segment ''data/segment-04.db''
                (failing_collection ''k'' (ErrorString ''read failed''))"

definition example_newSegment :: newSegment_fn where
  "example_newSegment p i mm bf cna ow =
     Inr ((example_segment p (\<lambda>k. (None, Some NotFound)))\<lparr>seg_existsOnLower := i\<rparr>)"

definition seg_failing_close :: segment where
  "seg_failing_close =
     (example_segment ''data/segment-02.db'' (tombstone_for ''k''))
       \<lparr>seg_close := Some (ErrorString ''close failed'')\<rparr>"










section \<open>Properties\<close>

lemmas collection_example_defs =
  example_group_def coll_a_def coll_b_def coll_c_def coll_bad_def collection_segment_def
  holding_collection_def failing_collection_def

lemmas example_defs =
  example_group_def seg_v1_def seg_tomb_def seg_other_def example_segment_def
  holding_def tombstone_for_def

subsection \<open>The index loops are the walk over the reversed sequence\<close>

lemma take_nat_step:
  assumes "0 \<le> i" "nat i < length xs"
  shows "rev (take (nat (i + 1)) xs) = xs ! nat i # rev (take (nat (i - 1 + 1)) xs)"
proof -
  have "nat (i + 1) = Suc (nat i)" using assms by simp
  moreover have "nat (i - 1 + 1) = nat i" by simp
  ultimately show ?thesis using assms by (simp add: take_Suc_conv_app_nth)
qed

lemma getWithUpperSegmentBoundary_walk:
  "segments sg = map Some ss \<Longrightarrow> i < int (length ss) \<Longrightarrow>
   getWithUpperSegmentBoundary sg key i = replace_walk (rev (take (nat (i + 1)) ss)) key"
proof (induction sg key i rule: getWithUpperSegmentBoundary.induct)
  case (1 sg key i)
  show ?case
  proof (cases "0 \<le> i")
    case False
    then show ?thesis by (simp add: getWithUpperSegmentBoundary.simps [of sg key i])
  next
    case True
    with "1.prems" have lt: "nat i < length ss" by simp
    have step: "rev (take (nat (i + 1)) ss) = ss ! nat i # rev (take (nat (i - 1 + 1)) ss)"
      using True lt by (rule take_nat_step)
    have slot: "segments sg ! nat i = Some (ss ! nat i)"
      using "1.prems" lt by simp
    obtain v e where ans: "seg_get (ss ! nat i) key = (v, e)" by (cases "seg_get (ss ! nat i) key")
    show ?thesis
    proof (cases e)
      case None
      with True lt slot ans step "1.prems" show ?thesis
        by (simp add: getWithUpperSegmentBoundary.simps [of sg key i])
    next
      case (Some err)
      show ?thesis
      proof (cases "errors_Is err NotFound")
        case nf: True
        have "getWithUpperSegmentBoundary sg key (i - 1)
              = replace_walk (rev (take (nat (i - 1 + 1)) ss)) key"
          using "1.IH" [OF True _ slot _ _ nf] True lt "1.prems" ans Some by simp
        with True lt slot ans step "1.prems" Some nf show ?thesis
          by (simp add: getWithUpperSegmentBoundary.simps [of sg key i])
      next
        case False
        with True lt slot ans step "1.prems" Some show ?thesis
          by (simp add: getWithUpperSegmentBoundary.simps [of sg key i])
      qed
    qed
  qed
qed


lemma get_walk:
  assumes "segments sg = map Some ss"
  shows "get sg key = replace_walk (rev ss) key"
proof -
  have "int (length ss) - 1 < int (length ss)" by simp
  from getWithUpperSegmentBoundary_walk [OF assms this, of key] assms
  show ?thesis by (simp add: get_def)
qed

lemma getWithUpperSegmentBoundaryErrDeleted_walk:
  "segments sg = map Some ss \<Longrightarrow> i < int (length ss) \<Longrightarrow>
   getWithUpperSegmentBoundaryErrDeleted sg key i
   = replace_walk_err_deleted (rev (take (nat (i + 1)) ss)) key"
proof (induction sg key i rule: getWithUpperSegmentBoundaryErrDeleted.induct)
  case (1 sg key i)
  show ?case
  proof (cases "0 \<le> i")
    case False
    then show ?thesis by (simp add: getWithUpperSegmentBoundaryErrDeleted.simps [of sg key i])
  next
    case True
    with "1.prems" have lt: "nat i < length ss" by simp
    have step: "rev (take (nat (i + 1)) ss) = ss ! nat i # rev (take (nat (i - 1 + 1)) ss)"
      using True lt by (rule take_nat_step)
    have slot: "segments sg ! nat i = Some (ss ! nat i)"
      using "1.prems" lt by simp
    obtain v e where ans: "seg_get (ss ! nat i) key = (v, e)" by (cases "seg_get (ss ! nat i) key")
    show ?thesis
    proof (cases e)
      case None
      with True lt slot ans step "1.prems" show ?thesis
        by (simp add: getWithUpperSegmentBoundaryErrDeleted.simps [of sg key i])
    next
      case (Some err)
      show ?thesis
      proof (cases "errors_Is err NotFound")
        case nf: True
        have "getWithUpperSegmentBoundaryErrDeleted sg key (i - 1)
              = replace_walk_err_deleted (rev (take (nat (i - 1 + 1)) ss)) key"
          using "1.IH" [OF True _ slot _ _ nf] True lt "1.prems" ans Some by simp
        with True lt slot ans step "1.prems" Some nf show ?thesis
          by (simp add: getWithUpperSegmentBoundaryErrDeleted.simps [of sg key i])
      next
        case False
        with True lt slot ans step "1.prems" Some show ?thesis
          by (simp add: getWithUpperSegmentBoundaryErrDeleted.simps [of sg key i])
      qed
    qed
  qed
qed

lemma getErrDeleted_walk:
  assumes "segments sg = map Some ss"
  shows "getErrDeleted sg key = replace_walk_err_deleted (rev ss) key"
proof -
  have "int (length ss) - 1 < int (length ss)" by simp
  from getWithUpperSegmentBoundaryErrDeleted_walk [OF assms this, of key] assms
  show ?thesis by (simp add: getErrDeleted_def)
qed

lemma replace_walk_Cons_NotFound:
  "answers_NotFound s key \<Longrightarrow> replace_walk (s # xs) key = replace_walk xs key"
  by (cases "seg_get s key") (auto simp: answers_NotFound_def split: option.splits)

lemma replace_walk_Cons_answer:
  "\<not> answers_NotFound s key \<Longrightarrow> replace_walk (s # xs) key = settle s key"
  by (cases "seg_get s key") (auto simp: answers_NotFound_def settle_def split: option.splits)

lemma replace_walk_find:
  "replace_walk xs key =
     (case find (\<lambda>s. \<not> answers_NotFound s key) xs of
        None \<Rightarrow> Return (None, None)
      | Some s \<Rightarrow> settle s key)"
proof (induction xs)
  case Nil
  show ?case by simp
next
  case (Cons s xs)
  then show ?case
    by (cases "answers_NotFound s key")
       (simp_all only: replace_walk_Cons_NotFound replace_walk_Cons_answer
          find.simps if_True if_False not_True_eq_False not_False_eq_True option.case)
qed

lemma replace_walk_skip:
  "\<forall>s \<in> set xs. answers_NotFound s key \<Longrightarrow>
   replace_walk (xs @ ys) key = replace_walk ys key"
  by (induction xs) (simp_all add: replace_walk_Cons_NotFound del: replace_walk.simps(2))

lemma replace_walk_all_NotFound:
  "\<forall>s \<in> set xs. answers_NotFound s key \<Longrightarrow> replace_walk xs key = Return (None, None)"
  using replace_walk_skip [of xs key "[]"] by simp

lemma replace_walk_err_deleted_Cons_NotFound:
  "answers_NotFound s key \<Longrightarrow>
   replace_walk_err_deleted (s # xs) key = replace_walk_err_deleted xs key"
  by (cases "seg_get s key") (auto simp: answers_NotFound_def split: option.splits)

lemma replace_walk_err_deleted_skip:
  "\<forall>s \<in> set xs. answers_NotFound s key \<Longrightarrow>
   replace_walk_err_deleted (xs @ ys) key = replace_walk_err_deleted ys key"
  by (induction xs)
     (simp_all add: replace_walk_err_deleted_Cons_NotFound del: replace_walk_err_deleted.simps(2))

lemma replace_walk_err_deleted_tombstone:
  "seg_get s key = (v, Some err) \<Longrightarrow> errors_Is err Deleted \<Longrightarrow>
   replace_walk_err_deleted (s # xs) key
   = (if errors_Is err NotFound then replace_walk_err_deleted xs key else Return (None, Some err))"
  by simp

lemma errors_Is_sentinels_exclusive:
  "errors_Is e Deleted \<Longrightarrow> \<not> errors_Is e NotFound"
  by (induction e) auto

subsection \<open>Claims about the Replace reader path\<close>

text \<open>
  C1. For the Replace strategy, \<^verbatim>\<open>get(key)\<close> walks the segment sequence from newest to
  oldest: a segment's value is yielded and the walk stops, \<^verbatim>\<open>NotFound\<close> continues
  with the next older segment, \<^verbatim>\<open>Deleted\<close> yields absent and stops, and any other
  segment error panics. So the result is decided by the newest segment that does not
  answer \<^verbatim>\<open>NotFound\<close>: its value, or absent if it holds a tombstone, or absent if
  there is no such segment.
\<close>

theorem get_newest_first:
  assumes "segments sg = map Some ss"
  shows "get sg key = replace_walk (rev ss) key \<and>
         get sg key =
           (case find (\<lambda>s. \<not> answers_NotFound s key) (rev ss) of
              None \<Rightarrow> Return (None, None)
            | Some s \<Rightarrow> settle s key)"
  using get_walk [OF assms, of key] replace_walk_find [of "rev ss" key] by simp

theorem get_newest_first_witness:
  "segments (example_group [Some seg_v1, Some seg_tomb, Some seg_other])
     = map Some [seg_v1, seg_tomb, seg_other]
   \<and> get (example_group [Some seg_v1, Some seg_tomb, Some seg_other]) ''k'' = Return (None, None)
   \<and> get (example_group [Some seg_v1, Some seg_tomb, Some seg_other]) ''j''
       = Return (Some ''w'', None)
   \<and> segments (example_group [Some seg_tomb, Some seg_v1]) = map Some [seg_tomb, seg_v1]
   \<and> get (example_group [Some seg_tomb, Some seg_v1]) ''k'' = Return (Some ''v1'', None)
   \<and> segments (example_group [Some seg_v1, Some seg_broken]) = map Some [seg_v1, seg_broken]
   \<and> get (example_group [Some seg_v1, Some seg_broken]) ''k''
       = Panic (UnsupportedError (ErrorString ''read failed''))"
  using get_newest_first [of "example_group [Some seg_v1, Some seg_tomb, Some seg_other]"
      "[seg_v1, seg_tomb, seg_other]" "''k''"]
    get_newest_first [of "example_group [Some seg_v1, Some seg_tomb, Some seg_other]"
      "[seg_v1, seg_tomb, seg_other]" "''j''"]
    get_newest_first [of "example_group [Some seg_tomb, Some seg_v1]" "[seg_tomb, seg_v1]" "''k''"]
    get_newest_first [of "example_group [Some seg_v1, Some seg_broken]" "[seg_v1, seg_broken]"
      "''k''"]
  by (simp add: example_defs seg_broken_def)

text \<open>
  C9. For every key that no segment holds (every segment answers \<^verbatim>\<open>NotFound\<close>),
  and in particular for the empty segment sequence, \<^verbatim>\<open>get(key)\<close> returns the
  \<^verbatim>\<open>nil\<close> value and no error.
\<close>

theorem get_absent_when_no_segment_holds:
  "(segments sg = map Some ss \<and> (\<forall>s \<in> set ss. answers_NotFound s key)
      \<longrightarrow> get sg key = Return (None, None))
   \<and> (segments sg = [] \<longrightarrow> get sg key = Return (None, None))"
proof (intro conjI impI)
  assume a: "segments sg = map Some ss \<and> (\<forall>s \<in> set ss. answers_NotFound s key)"
  then have "\<forall>s \<in> set (rev ss). answers_NotFound s key" by simp
  then have "replace_walk (rev ss) key = Return (None, None)"
    by (rule replace_walk_all_NotFound)
  with a show "get sg key = Return (None, None)" by (simp add: get_walk)
next
  assume "segments sg = []"
  then have "segments sg = map Some []" by simp
  then have "get sg key = replace_walk (rev []) key" by (rule get_walk)
  then show "get sg key = Return (None, None)" by simp
qed

theorem get_absent_when_no_segment_holds_witness:
  "segments (example_group [Some seg_v1, Some seg_other]) = map Some [seg_v1, seg_other]
   \<and> answers_NotFound seg_v1 ''z'' \<and> answers_NotFound seg_other ''z''
   \<and> get (example_group [Some seg_v1, Some seg_other]) ''z'' = Return (None, None)
   \<and> segments (example_group []) = []
   \<and> get (example_group []) ''z'' = Return (None, None)"
  using get_absent_when_no_segment_holds
      [of "example_group [Some seg_v1, Some seg_other]" "[seg_v1, seg_other]" "''z''"]
    get_absent_when_no_segment_holds [of "example_group []" "[]" "''z''"]
  by (simp add: example_defs answers_NotFound_def)

text \<open>
  C10. When no segment holds the key or a tombstone for it, \<^verbatim>\<open>getErrDeleted(key)\<close>
  returns no value and the \<^verbatim>\<open>NotFound\<close> sentinel, where \<^verbatim>\<open>get\<close> returns absent
  and no error; when the newest segment holding the key holds a tombstone,
  \<^verbatim>\<open>getErrDeleted\<close> returns that segment's \<^verbatim>\<open>Deleted\<close> error.
\<close>

theorem getErrDeleted_sentinels:
  assumes "segments sg = map Some ss"
  shows "((\<forall>s \<in> set ss. answers_NotFound s key) \<longrightarrow>
            getErrDeleted sg key = Return (None, Some NotFound)
            \<and> get sg key = Return (None, None))
         \<and> (\<forall>older s newer v err.
               ss = older @ s # newer \<and> (\<forall>t \<in> set newer. answers_NotFound t key)
               \<and> seg_get s key = (v, Some err) \<and> errors_Is err Deleted
               \<longrightarrow> getErrDeleted sg key = Return (None, Some err))"
proof (intro conjI impI allI)
  assume nf: "\<forall>s \<in> set ss. answers_NotFound s key"
  then have r: "\<forall>s \<in> set (rev ss). answers_NotFound s key" by simp
  from replace_walk_err_deleted_skip [OF r, of "[]"]
  show "getErrDeleted sg key = Return (None, Some NotFound)"
    by (simp add: getErrDeleted_walk [OF assms])
  from replace_walk_all_NotFound [OF r]
  show "get sg key = Return (None, None)" by (simp add: get_walk [OF assms])
next
  fix older s newer v err
  assume a: "ss = older @ s # newer \<and> (\<forall>t \<in> set newer. answers_NotFound t key)
             \<and> seg_get s key = (v, Some err) \<and> errors_Is err Deleted"
  then have r: "\<forall>t \<in> set (rev newer). answers_NotFound t key" by simp
  have "rev ss = rev newer @ (s # rev older)" using a by simp
  then have "replace_walk_err_deleted (rev ss) key
             = replace_walk_err_deleted (s # rev older) key"
    using replace_walk_err_deleted_skip [OF r, of "s # rev older"] by simp
  also have "\<dots> = Return (None, Some err)"
    using a errors_Is_sentinels_exclusive [of err] by simp
  finally show "getErrDeleted sg key = Return (None, Some err)"
    by (simp add: getErrDeleted_walk [OF assms])
qed

theorem getErrDeleted_sentinels_witness:
  "segments (example_group [Some seg_v1, Some seg_tomb, Some seg_other])
     = map Some [seg_v1, seg_tomb, seg_other]
   \<and> answers_NotFound seg_v1 ''z'' \<and> answers_NotFound seg_tomb ''z''
   \<and> answers_NotFound seg_other ''z''
   \<and> getErrDeleted (example_group [Some seg_v1, Some seg_tomb, Some seg_other]) ''z''
       = Return (None, Some NotFound)
   \<and> get (example_group [Some seg_v1, Some seg_tomb, Some seg_other]) ''z''
       = Return (None, None)
   \<and> [seg_v1, seg_tomb, seg_other] = [seg_v1] @ seg_tomb # [seg_other]
   \<and> answers_NotFound seg_other ''k''
   \<and> seg_get seg_tomb ''k'' = (None, Some Deleted) \<and> errors_Is Deleted Deleted
   \<and> getErrDeleted (example_group [Some seg_v1, Some seg_tomb, Some seg_other]) ''k''
       = Return (None, Some Deleted)"
proof -
  let ?g = "example_group [Some seg_v1, Some seg_tomb, Some seg_other]"
  have h: "segments ?g = map Some [seg_v1, seg_tomb, seg_other]"
    by (simp add: example_group_def)
  have nf: "\<forall>s \<in> set [seg_v1, seg_tomb, seg_other]. answers_NotFound s ''z''"
    by (simp add: example_defs answers_NotFound_def)
  have nk: "\<forall>t \<in> set [seg_other]. answers_NotFound t ''k''"
    by (simp add: example_defs answers_NotFound_def)
  have tk: "seg_get seg_tomb ''k'' = (None, Some Deleted)"
    by (simp add: example_defs)
  from getErrDeleted_sentinels [OF h, of "''z''"] nf
  have z: "getErrDeleted ?g ''z'' = Return (None, Some NotFound)
           \<and> get ?g ''z'' = Return (None, None)"
    by blast
  from getErrDeleted_sentinels [OF h, of "''k''"]
  have "[seg_v1, seg_tomb, seg_other] = [seg_v1] @ seg_tomb # [seg_other]
          \<and> (\<forall>t \<in> set [seg_other]. answers_NotFound t ''k'')
          \<and> seg_get seg_tomb ''k'' = (None, Some Deleted) \<and> errors_Is Deleted Deleted
        \<longrightarrow> getErrDeleted ?g ''k'' = Return (None, Some Deleted)"
    by blast
  with nk tk have k: "getErrDeleted ?g ''k'' = Return (None, Some Deleted)" by simp
  from h nf z nk tk k show ?thesis by simp
qed

lemma makeExistsOnLower_walk:
  assumes "segments sg = map Some ss" "0 < i" "i \<le> int (length ss)"
  shows "makeExistsOnLower sg i key =
     (case replace_walk (rev (take (nat i) ss)) key of
        Panic p \<Rightarrow> Panic p
      | Return (v, Some err) \<Rightarrow>
          Return (False, Some (Wrap ''check exists on segments lower than nextSegmentIndex'' err))
      | Return (v, None) \<Rightarrow> Return (v \<noteq> None, None))"
proof -
  have "i - 1 < int (length ss)" using assms by simp
  from getWithUpperSegmentBoundary_walk [OF assms(1) this, of key] assms(2)
  show ?thesis by (simp add: makeExistsOnLower_def)
qed

lemma settle_exists_settle:
  "(case settle s key of
      Panic p \<Rightarrow> Panic p
    | Return (v, Some err) \<Rightarrow>
        Return (False, Some (Wrap ''check exists on segments lower than nextSegmentIndex'' err))
    | Return (v, None) \<Rightarrow> Return (v \<noteq> None, None)) = settle_exists s key"
  by (cases "seg_get s key") (auto simp: settle_def settle_exists_def split: option.splits)

subsection \<open>The injected predicate\<close>

text \<open>
  C8 (as the code has it). For a segment constructed at index \<open>i\<close>, the injected
  predicate answers by the newest-first Replace lookup over the strictly older
  segments (indices below \<open>i\<close>): it is true exactly when the newest older segment that
  holds the key or a tombstone for it holds a value that is not \<^verbatim>\<open>nil\<close>; a tombstone
  there masks every value further down and the answer is false. For \<open>i = 0\<close> it is
  false whatever the group holds, without consulting any segment.
\<close>

theorem makeExistsOnLower_newest_older_value:
  "makeExistsOnLower sg 0 key = Return (False, None)
   \<and> (segments sg = map Some ss \<and> 0 \<le> i \<and> i \<le> int (length ss) \<longrightarrow>
        makeExistsOnLower sg i key =
          (case find (\<lambda>s. \<not> answers_NotFound s key) (rev (take (nat i) ss)) of
             None \<Rightarrow> Return (False, None)
           | Some s \<Rightarrow> settle_exists s key))"
proof (intro conjI impI)
  show z: "makeExistsOnLower sg 0 key = Return (False, None)"
    by (simp add: makeExistsOnLower_def)
  assume a: "segments sg = map Some ss \<and> 0 \<le> i \<and> i \<le> int (length ss)"
  show "makeExistsOnLower sg i key =
          (case find (\<lambda>s. \<not> answers_NotFound s key) (rev (take (nat i) ss)) of
             None \<Rightarrow> Return (False, None)
           | Some s \<Rightarrow> settle_exists s key)"
  proof (cases "i = 0")
    case True
    then show ?thesis by (simp add: makeExistsOnLower_def)
  next
    case False
    with a have "0 < i" by simp
    with a have "makeExistsOnLower sg i key =
     (case replace_walk (rev (take (nat i) ss)) key of
        Panic p \<Rightarrow> Panic p
      | Return (v, Some err) \<Rightarrow>
          Return (False, Some (Wrap ''check exists on segments lower than nextSegmentIndex'' err))
      | Return (v, None) \<Rightarrow> Return (v \<noteq> None, None))"
      by (simp add: makeExistsOnLower_walk)
    then show ?thesis
      by (simp add: replace_walk_find [of "rev (take (nat i) ss)" key] settle_exists_settle
          split: option.splits)
  qed
qed

theorem makeExistsOnLower_newest_older_value_witness:
  "makeExistsOnLower (example_group [Some seg_v1, Some seg_tomb, Some seg_other]) 0 ''k''
     = Return (False, None)
   \<and> segments (example_group [Some seg_v1, Some seg_tomb, Some seg_other])
       = map Some [seg_v1, seg_tomb, seg_other]
   \<and> (0::int) \<le> 1 \<and> (1::int) \<le> int (length [seg_v1, seg_tomb, seg_other])
   \<and> makeExistsOnLower (example_group [Some seg_v1, Some seg_tomb, Some seg_other]) 1 ''k''
       = Return (True, None)
   \<and> makeExistsOnLower (example_group [Some seg_v1, Some seg_tomb, Some seg_other]) 3 ''j''
       = Return (True, None)"
  using makeExistsOnLower_newest_older_value
      [of "example_group [Some seg_v1, Some seg_tomb, Some seg_other]" "''k''"
          "[seg_v1, seg_tomb, seg_other]" 1]
    makeExistsOnLower_newest_older_value
      [of "example_group [Some seg_v1, Some seg_tomb, Some seg_other]" "''j''"
          "[seg_v1, seg_tomb, seg_other]" 3]
  by (simp add: example_defs answers_NotFound_def settle_exists_def)

text \<open>
  The claim as stated, true exactly when some strictly older segment contains the key,
  fails: the segment at index 0 holds the key, the one at index 1 a tombstone for it,
  and the predicate made for index 2 answers false.
\<close>

theorem makeExistsOnLower_masked_counterexample:
  "seg_get seg_v1 ''k'' = (Some ''v1'', None)
   \<and> segments (example_group [Some seg_v1, Some seg_tomb]) ! 0 = Some seg_v1
   \<and> makeExistsOnLower (example_group [Some seg_v1, Some seg_tomb]) 2 ''k''
       = Return (False, None)"
  by (simp add: makeExistsOnLower_def getWithUpperSegmentBoundary.simps example_defs)

lemma getCollection_loop_acc:
  "getCollection_loop (map Some ss) key out =
     (case find (\<lambda>s. collection_fails s key) ss of
        Some s \<Rightarrow> Return ([], snd (seg_getCollection s key))
      | None \<Rightarrow>
          Return (out @ concat (map (\<lambda>s. fst (seg_getCollection s key))
                                 (filter (\<lambda>s. collection_holds s key) ss)), None))"
proof (induction ss arbitrary: out)
  case Nil
  show ?case by simp
next
  case (Cons s ss)
  obtain v e where ans: "seg_getCollection s key = (v, e)" by (cases "seg_getCollection s key")
  show ?case
  proof (cases e)
    case None
    have acc: "(if length out = 0 then v else out @ v) = out @ v" by simp
    from None ans have "collection_holds s key" "\<not> collection_fails s key"
      by (simp_all add: collection_holds_def collection_fails_def)
    with None ans show ?thesis
      by (simp add: Cons.IH acc split: option.splits)
  next
    case (Some err)
    show ?thesis
    proof (cases "errors_Is err NotFound")
      case True
      with Some ans have "\<not> collection_holds s key" "\<not> collection_fails s key"
        by (simp_all add: collection_holds_def collection_fails_def)
      with Some ans True show ?thesis by (simp add: Cons.IH split: option.splits)
    next
      case False
      with Some ans have "collection_fails s key"
        by (simp add: collection_fails_def)
      with Some ans False show ?thesis by (simp split: option.splits)
    qed
  qed
qed

subsection \<open>Collection reads\<close>

text \<open>
  C5. \<^verbatim>\<open>getCollection(key)\<close> walks the sequence from oldest to newest. If some segment
  answers an error other than \<^verbatim>\<open>NotFound\<close>, the first such error is returned with
  no values; otherwise the result is the concatenation, in sequence order, of the
  value lists of the segments that hold the key, those answering \<^verbatim>\<open>NotFound\<close> being
  skipped.
\<close>

theorem getCollection_concatenates:
  assumes "segments sg = map Some ss"
  shows "getCollection sg key =
     (case find (\<lambda>s. collection_fails s key) ss of
        Some s \<Rightarrow> Return ([], snd (seg_getCollection s key))
      | None \<Rightarrow>
          Return (concat (map (\<lambda>s. fst (seg_getCollection s key))
                           (filter (\<lambda>s. collection_holds s key) ss)), None))"
  using getCollection_loop_acc [of ss key "[]"] assms
  by (simp add: getCollection_def split: option.splits)

theorem getCollection_concatenates_witness:
  "segments (example_group [Some coll_a, Some coll_b, Some coll_c])
     = map Some [coll_a, coll_b, coll_c]
   \<and> getCollection (example_group [Some coll_a, Some coll_b, Some coll_c]) ''k''
       = Return ([(''a1'', False), (''a2'', False), (''c1'', True)], None)
   \<and> segments (example_group [Some coll_a, Some coll_bad, Some coll_c])
       = map Some [coll_a, coll_bad, coll_c]
   \<and> getCollection (example_group [Some coll_a, Some coll_bad, Some coll_c]) ''k''
       = Return ([], Some (ErrorString ''read failed''))"
  using getCollection_concatenates
      [of "example_group [Some coll_a, Some coll_b, Some coll_c]" "[coll_a, coll_b, coll_c]" "''k''"]
    getCollection_concatenates
      [of "example_group [Some coll_a, Some coll_bad, Some coll_c]"
          "[coll_a, coll_bad, coll_c]" "''k''"]
  by (simp add: collection_example_defs collection_fails_def collection_holds_def)

lemma getWithUpperSegmentBoundary_prefix:
  "i < int (length (segments sg)) \<Longrightarrow> segments sg' = segments sg @ extra \<Longrightarrow>
   getWithUpperSegmentBoundary sg' key i = getWithUpperSegmentBoundary sg key i"
proof (induction sg key i rule: getWithUpperSegmentBoundary.induct)
  case (1 sg key i)
  show ?case
  proof (cases "0 \<le> i")
    case False
    then show ?thesis
      by (simp add: getWithUpperSegmentBoundary.simps [of sg key i]
          getWithUpperSegmentBoundary.simps [of sg' key i])
  next
    case True
    with "1.prems" have lt: "nat i < length (segments sg)" by simp
    then have lt': "nat i < length (segments sg')" using "1.prems" by simp
    have same: "segments sg' ! nat i = segments sg ! nat i"
      using "1.prems" lt by (simp add: nth_append)
    show ?thesis
    proof (cases "segments sg ! nat i")
      case None
      with True lt lt' same show ?thesis
        by (simp add: getWithUpperSegmentBoundary.simps [of sg key i]
            getWithUpperSegmentBoundary.simps [of sg' key i])
    next
      case (Some seg)
      obtain v e where ans: "seg_get seg key = (v, e)" by (cases "seg_get seg key")
      show ?thesis
      proof (cases e)
        case None
        with True lt lt' same Some ans show ?thesis
          by (simp add: getWithUpperSegmentBoundary.simps [of sg key i]
              getWithUpperSegmentBoundary.simps [of sg' key i])
      next
        case (Some err)
        note e = this
        show ?thesis
        proof (cases "errors_Is err NotFound")
          case nf: True
          have "getWithUpperSegmentBoundary sg' key (i - 1)
                = getWithUpperSegmentBoundary sg key (i - 1)"
            using "1.IH" [OF True lt \<open>segments sg ! nat i = Some seg\<close> _ _ nf] ans e "1.prems"
            by simp
          with True lt lt' same \<open>segments sg ! nat i = Some seg\<close> ans e nf show ?thesis
            by (simp add: getWithUpperSegmentBoundary.simps [of sg key i]
                getWithUpperSegmentBoundary.simps [of sg' key i])
        next
          case False
          with True lt lt' same \<open>segments sg ! nat i = Some seg\<close> ans e show ?thesis
            by (simp add: getWithUpperSegmentBoundary.simps [of sg key i]
                getWithUpperSegmentBoundary.simps [of sg' key i])
        qed
      qed
    qed
  qed
qed

lemma makeExistsOnLower_prefix:
  assumes "segments sg' = segments sg @ extra"
  shows "makeExistsOnLower sg' (int (length (segments sg))) key
         = makeExistsOnLower sg (int (length (segments sg))) key"
proof -
  have "int (length (segments sg)) - 1 < int (length (segments sg))" by simp
  from getWithUpperSegmentBoundary_prefix [OF this assms, of key]
  show ?thesis by (simp add: makeExistsOnLower_def)
qed

lemma makeExistsOnLower_top:
  "makeExistsOnLower sg (int (length (segments sg))) key =
     (if segments sg = [] then Return (False, None)
      else (case get sg key of
              Panic p \<Rightarrow> Panic p
            | Return (v, Some err) \<Rightarrow>
                Return (False,
                  Some (Wrap ''check exists on segments lower than nextSegmentIndex'' err))
            | Return (v, None) \<Rightarrow> Return (v \<noteq> None, None)))"
  by (simp add: makeExistsOnLower_def get_def)

subsection \<open>Appending\<close>

text \<open>
  C7 (as the code has it). After a successful \<^verbatim>\<open>add(path)\<close> the segment that
  \<^verbatim>\<open>newSegment\<close> built for the path, with the predicate made for the previous
  length of the sequence, is the tail of the sequence; every earlier position is
  unchanged; and that predicate answers on the new group as it did on the old one,
  that is by \<^verbatim>\<open>get\<close> on the old group, the lookup bounded by the previous top index. \<^verbatim>\<open>addInitializedSegment\<close>
  always succeeds, puts the given segment at the tail as it is and changes no
  earlier position; it does not bind the segment's predicate.
\<close>

theorem add_appends_at_tail:
  "(add newSegment sg path = (None, sg') \<longrightarrow>
      (\<exists>seg. newSegment path (int (length (segments sg))) (mmapContents sg)
                (useBloomFilter sg) (calcCountNetAdditions sg) True = Inr seg
            \<and> segments sg' = segments sg @ [Some seg]
            \<and> last (segments sg') = Some seg
            \<and> sg' = sg\<lparr>segments := segments sg @ [Some seg]\<rparr>)
      \<and> (\<forall>j < length (segments sg). segments sg' ! j = segments sg ! j)
      \<and> (\<forall>key. makeExistsOnLower sg' (int (length (segments sg))) key
               = makeExistsOnLower sg (int (length (segments sg))) key)
      \<and> (\<forall>key. makeExistsOnLower sg' (int (length (segments sg))) key
               = (if segments sg = [] then Return (False, None)
                  else (case get sg key of
                          Panic p \<Rightarrow> Panic p
                        | Return (v, Some err) \<Rightarrow>
                            Return (False,
                              Some (Wrap ''check exists on segments lower than nextSegmentIndex''
                                      err))
                        | Return (v, None) \<Rightarrow> Return (v \<noteq> None, None)))))
   \<and> addInitializedSegment sg s = (None, sg\<lparr>segments := segments sg @ [s]\<rparr>)
   \<and> last (segments (snd (addInitializedSegment sg s))) = s
   \<and> (\<forall>j < length (segments sg).
         segments (snd (addInitializedSegment sg s)) ! j = segments sg ! j)"
proof (intro conjI impI)
  assume a: "add newSegment sg path = (None, sg')"
  then obtain seg where
    ns: "newSegment path (int (length (segments sg))) (mmapContents sg)
           (useBloomFilter sg) (calcCountNetAdditions sg) True = Inr seg"
    and sg': "sg' = sg\<lparr>segments := segments sg @ [Some seg]\<rparr>"
    by (auto simp: add_def Let_def split: sum.splits)
  from sg' have app: "segments sg' = segments sg @ [Some seg]" by simp
  from ns app sg'
  show "\<exists>seg. newSegment path (int (length (segments sg))) (mmapContents sg)
                (useBloomFilter sg) (calcCountNetAdditions sg) True = Inr seg
            \<and> segments sg' = segments sg @ [Some seg]
            \<and> last (segments sg') = Some seg
            \<and> sg' = sg\<lparr>segments := segments sg @ [Some seg]\<rparr>"
    by simp
  from app show "\<forall>j < length (segments sg). segments sg' ! j = segments sg ! j"
    by (simp add: nth_append)
  from makeExistsOnLower_prefix [OF app]
  show "\<forall>key. makeExistsOnLower sg' (int (length (segments sg))) key
               = makeExistsOnLower sg (int (length (segments sg))) key"
    by blast
  from makeExistsOnLower_prefix [OF app]
  show "\<forall>key. makeExistsOnLower sg' (int (length (segments sg))) key
               = (if segments sg = [] then Return (False, None)
                  else (case get sg key of
                          Panic p \<Rightarrow> Panic p
                        | Return (v, Some err) \<Rightarrow>
                            Return (False,
                              Some (Wrap ''check exists on segments lower than nextSegmentIndex''
                                      err))
                        | Return (v, None) \<Rightarrow> Return (v \<noteq> None, None)))"
    by (simp only: makeExistsOnLower_top) simp
next
  show "addInitializedSegment sg s = (None, sg\<lparr>segments := segments sg @ [s]\<rparr>)"
    by (simp add: addInitializedSegment_def)
  show "last (segments (snd (addInitializedSegment sg s))) = s"
    by (simp add: addInitializedSegment_def)
  show "\<forall>j < length (segments sg).
         segments (snd (addInitializedSegment sg s)) ! j = segments sg ! j"
    by (simp add: addInitializedSegment_def nth_append)
qed

theorem add_appends_at_tail_witness:
  "add example_newSegment (example_group [Some seg_v1, Some seg_tomb]) ''data/segment-03.db''
     = (None, example_group [Some seg_v1, Some seg_tomb,
          Some ((example_segment ''data/segment-03.db'' (\<lambda>k. (None, Some NotFound)))
                  \<lparr>seg_existsOnLower := 2\<rparr>)])
   \<and> segments (example_group [Some seg_v1, Some seg_tomb,
          Some ((example_segment ''data/segment-03.db'' (\<lambda>k. (None, Some NotFound)))
                  \<lparr>seg_existsOnLower := 2\<rparr>)]) ! 0 = Some seg_v1
   \<and> makeExistsOnLower (example_group [Some seg_v1, Some seg_tomb,
          Some ((example_segment ''data/segment-03.db'' (\<lambda>k. (None, Some NotFound)))
                  \<lparr>seg_existsOnLower := 2\<rparr>)]) 2 ''k''
      = makeExistsOnLower (example_group [Some seg_v1, Some seg_tomb]) 2 ''k''"
proof -
  let ?g = "example_group [Some seg_v1, Some seg_tomb]"
  let ?n = "(example_segment ''data/segment-03.db'' (\<lambda>k. (None, Some NotFound)))
                  \<lparr>seg_existsOnLower := 2\<rparr>"
  let ?g' = "example_group [Some seg_v1, Some seg_tomb, Some ?n]"
  have a: "add example_newSegment ?g ''data/segment-03.db'' = (None, ?g')"
    by (simp add: add_def example_newSegment_def example_group_def)
  have len: "length (segments ?g) = 2" by (simp add: example_group_def)
  from add_appends_at_tail [of example_newSegment ?g "''data/segment-03.db''" ?g' None,
      THEN conjunct1, rule_format, OF a]
  have "(\<forall>j < length (segments ?g). segments ?g' ! j = segments ?g ! j)
      \<and> (\<forall>key. makeExistsOnLower ?g' (int (length (segments ?g))) key
               = makeExistsOnLower ?g (int (length (segments ?g))) key)"
    by blast
  with len have "segments ?g' ! 0 = segments ?g ! 0
     \<and> makeExistsOnLower ?g' 2 ''k'' = makeExistsOnLower ?g 2 ''k''"
    by simp
  with a show ?thesis by (simp add: example_group_def)
qed

text \<open>
  The claim as stated binds the predicate of the new segment to the previous top index
  for \<^verbatim>\<open>addInitializedSegment\<close> too. A segment constructed with the predicate for
  index 0 and appended to a group of two segments keeps that predicate, which answers
  false for a key the predicate for index 2 finds.
\<close>

theorem addInitializedSegment_predicate_counterexample:
  "addInitializedSegment (example_group [Some seg_v1, Some seg_other]) (Some seg_tomb)
     = (None, example_group [Some seg_v1, Some seg_other, Some seg_tomb])
   \<and> int (length (segments (example_group [Some seg_v1, Some seg_other]))) = 2
   \<and> seg_existsOnLower seg_tomb = 0
   \<and> makeExistsOnLower (example_group [Some seg_v1, Some seg_other, Some seg_tomb])
        (seg_existsOnLower seg_tomb) ''k'' = Return (False, None)
   \<and> makeExistsOnLower (example_group [Some seg_v1, Some seg_other, Some seg_tomb]) 2 ''k''
       = Return (True, None)"
  by (simp add: addInitializedSegment_def makeExistsOnLower_def
      getWithUpperSegmentBoundary.simps example_defs)


subsection \<open>Shutdown\<close>

lemma shutdown_loop_closes_prefix:
  "\<forall>t \<in> set pre. seg_close t = None \<Longrightarrow>
   shutdown_loop (replicate n None @ map Some (pre @ rest)) n closed
   = shutdown_loop (replicate (n + length pre) None @ map Some rest) (n + length pre)
       (closed @ pre)"
proof (induction pre arbitrary: n closed)
  case Nil
  show ?case by simp
next
  case (Cons t pre)
  have upd: "(replicate n None @ map Some ((t # pre) @ rest))[n := None]
             = replicate (Suc n) None @ map Some (pre @ rest)"
    by (simp add: list_update_append replicate_append_same)
  have "shutdown_loop (replicate n None @ map Some ((t # pre) @ rest)) n closed
        = shutdown_loop (replicate (Suc n) None @ map Some (pre @ rest)) (Suc n) (closed @ [t])"
    using Cons.prems upd
    by (subst shutdown_loop.simps) (simp add: nth_append)
  also have "\<dots> = shutdown_loop (replicate (Suc n + length pre) None @ map Some rest)
                     (Suc n + length pre) ((closed @ [t]) @ pre)"
    using Cons.prems by (intro Cons.IH) simp
  finally show ?case by simp
qed

lemma shutdown_loop_failing_close:
  "seg_close s = Some err \<Longrightarrow>
   shutdown_loop (replicate n None @ map Some (s # post)) n closed
   = Return (Some err, replicate n None @ map Some (s # post), closed)"
  by (subst shutdown_loop.simps) (simp add: nth_append)

lemma shutdown_loop_end:
  "shutdown_loop (replicate n None) n closed = Return (None, [], closed)"
  by (subst shutdown_loop.simps) simp

lemma shutdown_loop_first_failure:
  assumes "\<forall>t \<in> set pre. seg_close t = None" "seg_close s = Some err"
  shows "shutdown_loop (map Some (pre @ s # post)) 0 []
         = Return (Some err, replicate (length pre) None @ map Some (s # post), pre)"
  using shutdown_loop_closes_prefix [OF assms(1), of 0 "s # post" "[]"]
    shutdown_loop_failing_close [OF assms(2), of "length pre" post pre]
  by simp

lemma shutdown_loop_all_closed:
  assumes "\<forall>t \<in> set ss. seg_close t = None"
  shows "shutdown_loop (map Some ss) 0 [] = Return (None, [], ss)"
  using shutdown_loop_closes_prefix [OF assms, of 0 "[]" "[]"]
    shutdown_loop_end [of "length ss" ss]
  by simp

text \<open>
  C6 (as the code has it). \<^verbatim>\<open>shutdown\<close> closes the segments in sequence order and
  sets each closed slot to \<^verbatim>\<open>nil\<close>. If a segment's \<^verbatim>\<open>close\<close> fails, that error is
  returned at once: the earlier slots are \<^verbatim>\<open>nil\<close>, the failing and the later
  segments are still in their slots and no \<^verbatim>\<open>close\<close> was called on the later ones.
  If every \<^verbatim>\<open>close\<close> succeeds the sequence is set to \<^verbatim>\<open>nil\<close>, the empty sequence:
  a later read finds no segment and returns absent, and a later \<^verbatim>\<open>add\<close> succeeds
  when \<^verbatim>\<open>newSegment\<close> does.
\<close>

theorem shutdown_closes_in_order:
  assumes "segments sg = map Some ss"
  shows "(\<forall>pre s post err.
            ss = pre @ s # post \<and> (\<forall>t \<in> set pre. seg_close t = None)
            \<and> seg_close s = Some err \<longrightarrow>
            shutdown None ctx_err None sg
            = Return (Some err,
                      sg\<lparr>segments := replicate (length pre) None @ map Some (s # post)\<rparr>, pre))
         \<and> ((\<forall>t \<in> set ss. seg_close t = None) \<longrightarrow>
            shutdown None ctx_err None sg = Return (None, sg\<lparr>segments := []\<rparr>, ss)
            \<and> (\<forall>key. get (sg\<lparr>segments := []\<rparr>) key = Return (None, None))
            \<and> (\<forall>newSegment path seg.
                  newSegment path 0 (mmapContents sg) (useBloomFilter sg)
                    (calcCountNetAdditions sg) True = Inr seg \<longrightarrow>
                  add newSegment (sg\<lparr>segments := []\<rparr>) path
                  = (None, sg\<lparr>segments := [Some seg]\<rparr>)))"
proof (intro conjI impI allI)
  fix pre s post err
  assume a: "ss = pre @ s # post \<and> (\<forall>t \<in> set pre. seg_close t = None)
             \<and> seg_close s = Some err"
  then have "shutdown_loop (map Some ss) 0 []
             = Return (Some err, replicate (length pre) None @ map Some (s # post), pre)"
    using shutdown_loop_first_failure [of pre s err post] by simp
  then show "shutdown None ctx_err None sg
            = Return (Some err,
                      sg\<lparr>segments := replicate (length pre) None @ map Some (s # post)\<rparr>, pre)"
    using assms by (simp add: shutdown_def)
next
  assume "\<forall>t \<in> set ss. seg_close t = None"
  then have "shutdown_loop (map Some ss) 0 [] = Return (None, [], ss)"
    by (rule shutdown_loop_all_closed)
  then show "shutdown None ctx_err None sg = Return (None, sg\<lparr>segments := []\<rparr>, ss)"
    using assms by (simp add: shutdown_def)
next
  fix key
  have "segments (sg\<lparr>segments := []\<rparr>) = map Some []" by simp
  from get_walk [OF this, of key]
  show "get (sg\<lparr>segments := []\<rparr>) key = Return (None, None)" by simp
next
  fix newSegment :: newSegment_fn and path seg
  assume "newSegment path 0 (mmapContents sg) (useBloomFilter sg)
            (calcCountNetAdditions sg) True = Inr seg"
  then show "add newSegment (sg\<lparr>segments := []\<rparr>) path = (None, sg\<lparr>segments := [Some seg]\<rparr>)"
    by (simp add: add_def)
qed


theorem shutdown_closes_in_order_witness:
  "segments (example_group [Some seg_v1, Some seg_failing_close, Some seg_other])
     = map Some [seg_v1, seg_failing_close, seg_other]
   \<and> [seg_v1, seg_failing_close, seg_other] = [seg_v1] @ seg_failing_close # [seg_other]
   \<and> seg_close seg_v1 = None
   \<and> seg_close seg_failing_close = Some (ErrorString ''close failed'')
   \<and> shutdown None None None (example_group [Some seg_v1, Some seg_failing_close, Some seg_other])
       = Return (Some (ErrorString ''close failed''),
                 example_group [None, Some seg_failing_close, Some seg_other], [seg_v1])
   \<and> segments (example_group [Some seg_v1, Some seg_other]) = map Some [seg_v1, seg_other]
   \<and> seg_close seg_other = None
   \<and> shutdown None None None (example_group [Some seg_v1, Some seg_other])
       = Return (None, example_group [], [seg_v1, seg_other])"
proof -
  let ?g = "example_group [Some seg_v1, Some seg_failing_close, Some seg_other]"
  let ?h = "example_group [Some seg_v1, Some seg_other]"
  have g: "segments ?g = map Some [seg_v1, seg_failing_close, seg_other]"
    by (simp add: example_group_def)
  have h: "segments ?h = map Some [seg_v1, seg_other]"
    by (simp add: example_group_def)
  have c1: "seg_close seg_v1 = None" and c3: "seg_close seg_other = None"
    and c2: "seg_close seg_failing_close = Some (ErrorString ''close failed'')"
    by (simp_all add: example_defs seg_failing_close_def)
  have split: "[seg_v1, seg_failing_close, seg_other] = [seg_v1] @ seg_failing_close # [seg_other]"
    by simp
  have pre: "\<forall>t \<in> set [seg_v1]. seg_close t = None" using c1 by simp
  from shutdown_closes_in_order [OF g, of None, THEN conjunct1, rule_format,
      of "[seg_v1]" seg_failing_close "[seg_other]" "ErrorString ''close failed''"] pre c2
  have "shutdown None None None ?g
        = Return (Some (ErrorString ''close failed''),
            ?g\<lparr>segments := replicate (length [seg_v1]) None
                              @ map Some (seg_failing_close # [seg_other])\<rparr>, [seg_v1])"
    by simp
  then have a: "shutdown None None None ?g
        = Return (Some (ErrorString ''close failed''),
                  example_group [None, Some seg_failing_close, Some seg_other], [seg_v1])"
    by (simp add: example_group_def)
  have all: "\<forall>t \<in> set [seg_v1, seg_other]. seg_close t = None" using c1 c3 by simp
  from shutdown_closes_in_order [OF h, of None, THEN conjunct2, THEN mp, OF all]
  have "shutdown None None None ?h = Return (None, ?h\<lparr>segments := []\<rparr>, [seg_v1, seg_other])"
    by simp
  then have b: "shutdown None None None ?h = Return (None, example_group [], [seg_v1, seg_other])"
    by (simp add: example_group_def)
  show ?thesis by (intro conjI g split c1 c2 a h c3 b)
qed

text \<open>
  The claim as stated says that a flush arriving after \<^verbatim>\<open>shutdown\<close> fails loudly.
  After a successful shutdown of two segments the group is the empty group, on which
  \<^verbatim>\<open>add\<close> and \<^verbatim>\<open>addInitializedSegment\<close> return no error and \<^verbatim>\<open>get\<close> returns absent.
\<close>

theorem shutdown_late_flush_counterexample:
  "shutdown None None None (example_group [Some seg_v1, Some seg_other])
     = Return (None, example_group [], [seg_v1, seg_other])
   \<and> fst (add example_newSegment (example_group []) ''data/segment-04.db'') = None
   \<and> length (segments (snd (add example_newSegment (example_group []) ''data/segment-04.db''))) = 1
   \<and> addInitializedSegment (example_group []) (Some seg_tomb)
       = (None, example_group [Some seg_tomb])
   \<and> get (example_group []) ''k'' = Return (None, None)"
proof -
  have "shutdown_loop [Some seg_v1, Some seg_other] 0 [] = Return (None, [], [seg_v1, seg_other])"
    by (simp add: shutdown_loop.simps example_defs)
  then have "shutdown None None None (example_group [Some seg_v1, Some seg_other])
     = Return (None, example_group [], [seg_v1, seg_other])"
    by (simp add: shutdown_def example_group_def)
  moreover have "get (example_group []) ''k'' = Return (None, None)"
    by (simp add: get_def getWithUpperSegmentBoundary.simps example_group_def)
  ultimately show ?thesis
    by (simp add: add_def addInitializedSegment_def example_newSegment_def example_group_def)
qed

subsection \<open>The maintenance tick\<close>




subsection \<open>Recovery\<close>




















end
